theory Spec2Isabelle
  imports Main
begin

section \<open>Data model of \<^verbatim>\<open>annotation.py\<close>\<close>

text \<open>
  The three namedtuples of the module. \<^verbatim>\<open>Target\<close> and \<^verbatim>\<open>FrameElement\<close> both have
  fields \<^verbatim>\<open>start\<close> and \<^verbatim>\<open>end\<close>; the record fields carry a prefix to keep them apart
  (\<^verbatim>\<open>end\<close> and \<^verbatim>\<open>id\<close> are taken in Isabelle). Offsets are Python integers.
\<close>

record Target =
  t_start :: int
  t_end :: int

record FrameElement =
  fe_start :: int
  fe_end :: int
  fe_name :: string

record Annotation =
  ann_id :: string
  sent_id :: string
  frame_name :: string
  target :: Target
  FE :: "FrameElement list"

text \<open>The exceptions the module can raise from its own statements.\<close>

datatype error =
  KeyError string
  | IndexError
  | ValueError
  | AttributeError
  | UnicodeEncodeError
  | UnboundLocalError

section \<open>Offset aligner\<close>

text \<open>
  The two-cursor loop of \<^verbatim>\<open>align_annotation_with_sentence\<close>:
  \<^verbatim>\<open>
    while i < len(sent) and j < len(new_sent):
        if sent[i] != new_sent[j]:
            gaps.append(i)
            j += 1
        else:
            i += 1
            j += 1
  \<close>
  The state of the loop is \<open>(i, j, gaps)\<close>; the strings are lists over any character
  type.
\<close>

function gap_scan :: "'a list \<Rightarrow> 'a list \<Rightarrow> nat \<Rightarrow> nat \<Rightarrow> int list \<Rightarrow> int list" where
  "gap_scan sent new_sent i j gaps =
     (if i < length sent \<and> j < length new_sent then
        (if sent ! i \<noteq> new_sent ! j
         then gap_scan sent new_sent i (j + 1) (gaps @ [int i])
         else gap_scan sent new_sent (i + 1) (j + 1) gaps)
      else gaps)"
  by pat_completeness auto
termination
  by (relation "measure (\<lambda>(sent, new_sent, i, j, gaps). length new_sent - j)") auto

declare gap_scan.simps [simp del]

text \<open>
  The closure \<^verbatim>\<open>correct_pos\<close>:
  \<^verbatim>\<open>
    def correct_pos(pos):
        for i in xrange(len(gaps)):
            if pos < gaps[i]:
                return pos + i
        return pos + i + 1
  \<close>
  \<open>k\<close> is the next index of the \<^verbatim>\<open>xrange\<close>; \<open>i\<close> is the binding of the loop variable
  (\<open>None\<close> while the loop has not bound it). The \<^verbatim>\<open>return\<close> after the loop reads
  \<^verbatim>\<open>i\<close>: when the loop body never ran the name is unbound and Python raises
  \<^verbatim>\<open>UnboundLocalError\<close>.
\<close>

function correct_pos_loop :: "int list \<Rightarrow> int \<Rightarrow> nat \<Rightarrow> nat option \<Rightarrow> error + int" where
  "correct_pos_loop gaps pos k i =
     (if k < length gaps then
        (if pos < gaps ! k then Inr (pos + int k)
         else correct_pos_loop gaps pos (k + 1) (Some k))
      else (case i of
              None \<Rightarrow> Inl UnboundLocalError
            | Some i' \<Rightarrow> Inr (pos + int i' + 1)))"
  by pat_completeness auto
termination
  by (relation "measure (\<lambda>(gaps, pos, k, i). length gaps - k)") auto

declare correct_pos_loop.simps [simp del]

definition correct_pos :: "int list \<Rightarrow> int \<Rightarrow> error + int" where
  "correct_pos gaps pos = correct_pos_loop gaps pos 0 None"

text \<open>
  The inner loop over \<^verbatim>\<open>ann.FE\<close>, with the accumulator \<^verbatim>\<open>fes\<close>. Python evaluates
  the constructor's arguments left to right: \<^verbatim>\<open>correct_pos(fe.start)\<close> first.
\<close>

fun correct_FE :: "int list \<Rightarrow> FrameElement list \<Rightarrow> FrameElement list \<Rightarrow> error + FrameElement list" where
  "correct_FE gaps [] fes = Inr fes"
| "correct_FE gaps (fe # rest) fes =
     (case correct_pos gaps (fe_start fe) of
        Inl e \<Rightarrow> Inl e
      | Inr s \<Rightarrow>
          (case correct_pos gaps (fe_end fe) of
             Inl e \<Rightarrow> Inl e
           | Inr en \<Rightarrow>
               correct_FE gaps rest
                 (fes @ [\<lparr>fe_start = s, fe_end = en, fe_name = fe_name fe\<rparr>])))"

text \<open>The body of \<^verbatim>\<open>for ann in annotations\<close>: one rewritten annotation.\<close>

definition correct_ann :: "int list \<Rightarrow> Annotation \<Rightarrow> error + Annotation" where
  "correct_ann gaps ann =
     (case correct_pos gaps (t_start (target ann)) of
        Inl e \<Rightarrow> Inl e
      | Inr s \<Rightarrow>
          (case correct_pos gaps (t_end (target ann)) of
             Inl e \<Rightarrow> Inl e
           | Inr en \<Rightarrow>
               (case correct_FE gaps (FE ann) [] of
                  Inl e \<Rightarrow> Inl e
                | Inr fes \<Rightarrow>
                    Inr \<lparr>ann_id = ann_id ann, sent_id = sent_id ann,
                         frame_name = frame_name ann,
                         target = \<lparr>t_start = s, t_end = en\<rparr>, FE = fes\<rparr>)))"

fun align_loop :: "int list \<Rightarrow> Annotation list \<Rightarrow> Annotation list \<Rightarrow> error + Annotation list" where
  "align_loop gaps [] new_anns = Inr new_anns"
| "align_loop gaps (ann # rest) new_anns =
     (case correct_ann gaps ann of
        Inl e \<Rightarrow> Inl e
      | Inr a \<Rightarrow> align_loop gaps rest (new_anns @ [a]))"

text \<open>
  The function itself: the equality guard returns the input list; otherwise the gap scan
  runs from \<open>i = j = 0\<close> with no gap, and every annotation is rewritten.
\<close>

definition align_annotation_with_sentence ::
    "'a list \<Rightarrow> 'a list \<Rightarrow> Annotation list \<Rightarrow> error + Annotation list" where
  "align_annotation_with_sentence sent new_sent annotations =
     (if sent = new_sent then Inr annotations
      else align_loop (gap_scan sent new_sent 0 0 []) annotations [])"

text \<open>
  What the aligner makes of one offset: on equal strings the offset itself, otherwise the
  value the correction function returns for it from the gaps of the scan.
\<close>

definition corrected_to :: "'a list \<Rightarrow> 'a list \<Rightarrow> int \<Rightarrow> int \<Rightarrow> bool" where
  "corrected_to sent new_sent pos pos' =
     (if sent = new_sent then pos' = pos
      else correct_pos (gap_scan sent new_sent 0 0 []) pos = Inr pos')"

section \<open>Corpus parser\<close>

text \<open>
  The document after the namespace transform: an element has a tag, an attribute
  dictionary, the text before its first child (\<open>None\<close> when there is none) and its
  element children in document order. Reading the file and the XSL transform are library
  calls and stay outside the model; \<^verbatim>\<open>parse_fulltext\<close> starts from the root element
  that \<^verbatim>\<open>tree.xpath\<close> evaluates against.
\<close>

datatype element =
  Element (tag: string) (attrib: "string \<rightharpoonup> string") (text_of: "string option")
    (children: "element list")

text \<open>A line written to \<^verbatim>\<open>sys.stderr\<close>, by the values it is formatted from.\<close>

datatype warning =
  NoFrameElement string string
  | NoResult string

text \<open>\<^verbatim>\<open>d[k]\<close> on an attribute dictionary.\<close>

definition getitem :: "(string \<rightharpoonup> string) \<Rightarrow> string \<Rightarrow> error + string" where
  "getitem d k = (case d k of None \<Rightarrow> Inl (KeyError k) | Some v \<Rightarrow> Inr v)"

text \<open>
  \<^verbatim>\<open>int(d[k])\<close>. Python's builtin \<^verbatim>\<open>int\<close> on a string is the parameter \<open>py_int\<close>;
  \<open>None\<close> stands for its \<^verbatim>\<open>ValueError\<close>.
\<close>

definition int_of_attr ::
    "(string \<Rightarrow> int option) \<Rightarrow> (string \<rightharpoonup> string) \<Rightarrow> string \<Rightarrow> error + int" where
  "int_of_attr py_int d k =
     (case getitem d k of
        Inl e \<Rightarrow> Inl e
      | Inr v \<Rightarrow> (case py_int v of None \<Rightarrow> Inl ValueError | Some n \<Rightarrow> Inr n))"

text \<open>
  The XPath expressions of the parser: a name test selects the element children with that
  tag; \<^verbatim>\<open>annotationSet[@status="MANUAL"]\<close>; \<^verbatim>\<open>layer[@name="N"]/label\<close>, the label
  children of every layer named \<open>N\<close>, in document order; and the same with
  \<^verbatim>\<open>[not(@itype)]\<close> for the FE layer.
\<close>

definition xpath_children :: "string \<Rightarrow> element \<Rightarrow> element list" where
  "xpath_children n e = filter (\<lambda>c. tag c = n) (children e)"


definition xpath_layer_labels :: "string \<Rightarrow> element \<Rightarrow> element list" where
  "xpath_layer_labels n a =
     concat (map (xpath_children ''label'')
       (filter (\<lambda>l. attrib l ''name'' = Some n) (xpath_children ''layer'' a)))"

definition xpath_FE_labels :: "element \<Rightarrow> element list" where
  "xpath_FE_labels a = filter (\<lambda>l. attrib l ''itype'' = None) (xpath_layer_labels ''FE'' a)"

text \<open>
  The body of the loop over the FE labels:
  \<^verbatim>\<open>
    if 'start' in label.attrib:
        FE.append(FrameElement(start = int(label.attrib['start']),
                               end = int(label.attrib['end']),
                               name = label.attrib['name']))
  \<close>
  \<open>Inr None\<close> is the label that appends nothing.
\<close>

definition FE_of_label :: "(string \<Rightarrow> int option) \<Rightarrow> element \<Rightarrow> error + FrameElement option" where
  "FE_of_label py_int label =
     (if attrib label ''start'' \<noteq> None then
        (case int_of_attr py_int (attrib label) ''start'' of
           Inl e \<Rightarrow> Inl e
         | Inr s \<Rightarrow>
             (case int_of_attr py_int (attrib label) ''end'' of
                Inl e \<Rightarrow> Inl e
              | Inr en \<Rightarrow>
                  (case getitem (attrib label) ''name'' of
                     Inl e \<Rightarrow> Inl e
                   | Inr n \<Rightarrow> Inr (Some \<lparr>fe_start = s, fe_end = en, fe_name = n\<rparr>))))
      else Inr None)"

fun FE_loop ::
    "(string \<Rightarrow> int option) \<Rightarrow> element list \<Rightarrow> FrameElement list \<Rightarrow> error + FrameElement list" where
  "FE_loop py_int [] fes = Inr fes"
| "FE_loop py_int (label # rest) fes =
     (case FE_of_label py_int label of
        Inl e \<Rightarrow> Inl e
      | Inr None \<Rightarrow> FE_loop py_int rest fes
      | Inr (Some fe) \<Rightarrow> FE_loop py_int rest (fes @ [fe]))"

text \<open>
  The body of the loop over the MANUAL annotation sets of a sentence. \<open>Inr (None, [])\<close>
  is the \<^verbatim>\<open>continue\<close>; otherwise the annotation comes with what the iteration wrote
  to stderr. The warning reads \<^verbatim>\<open>a.attrib['frameName']\<close> before the constructor does.
\<close>

definition parse_annotationSet ::
    "(string \<Rightarrow> int option) \<Rightarrow> string \<Rightarrow> string \<Rightarrow> element
       \<Rightarrow> error + (Annotation option \<times> warning list)" where
  "parse_annotationSet py_int sid sent_str a =
     (case getitem (attrib a) ''ID'' of
        Inl e \<Rightarrow> Inl e
      | Inr aid \<Rightarrow>
          (let target_label = xpath_layer_labels ''Target'' a in
           if length target_label = 1 then
             (let target_node = target_label ! 0 in
              case int_of_attr py_int (attrib target_node) ''start'' of
                Inl e \<Rightarrow> Inl e
              | Inr s \<Rightarrow>
                  (case int_of_attr py_int (attrib target_node) ''end'' of
                     Inl e \<Rightarrow> Inl e
                   | Inr en \<Rightarrow>
                       (case FE_loop py_int (xpath_FE_labels a) [] of
                          Inl e \<Rightarrow> Inl e
                        | Inr fes \<Rightarrow>
                            (case (if length fes = 0 then
                                     (case getitem (attrib a) ''frameName'' of
                                        Inl e \<Rightarrow> Inl e
                                      | Inr fn \<Rightarrow> Inr [NoFrameElement fn sent_str])
                                   else Inr []) of
                               Inl e \<Rightarrow> Inl e
                             | Inr w \<Rightarrow>
                                 (case getitem (attrib a) ''frameName'' of
                                    Inl e \<Rightarrow> Inl e
                                  | Inr fn \<Rightarrow>
                                      Inr (Some \<lparr>ann_id = aid, sent_id = sid, frame_name = fn,
                                                 target = \<lparr>t_start = s, t_end = en\<rparr>,
                                                 FE = fes\<rparr>, w))))))
           else Inr (None, [])))"






text \<open>
  Python 2's \<^verbatim>\<open>int\<close> on a byte string, in base 10 and within the machine integers, to
  run the parser on concrete documents: white space around the number, an optional sign
  that white space may follow, and at least one decimal digit; anything else is its
  \<^verbatim>\<open>ValueError\<close>.
\<close>

definition is_space :: "char \<Rightarrow> bool" where
  "is_space c = ((of_char c :: nat) = 32 \<or> ((9::nat) \<le> of_char c \<and> (of_char c :: nat) \<le> 13))"

definition is_digit :: "char \<Rightarrow> bool" where
  "is_digit c = ((48::nat) \<le> of_char c \<and> (of_char c :: nat) \<le> 57)"

definition digits :: "string \<Rightarrow> nat" where
  "digits ds = foldl (\<lambda>acc c. 10 * acc + ((of_char c :: nat) - 48)) 0 ds"

definition decimal :: "string \<Rightarrow> int option" where
  "decimal s =
     (let s1 = dropWhile is_space s;
          signed = (s1 \<noteq> [] \<and> (hd s1 = CHR ''-'' \<or> hd s1 = CHR ''+''));
          negative = (s1 \<noteq> [] \<and> hd s1 = CHR ''-'');
          s2 = dropWhile is_space (if signed then tl s1 else s1);
          ds = takeWhile is_digit s2;
          rest = dropWhile is_space (dropWhile is_digit s2)
      in if ds = [] \<or> rest \<noteq> [] then None
         else Some (if negative then - int (digits ds) else int (digits ds)))"

text \<open>
  A small corpus document in the shape of the module's test data, to run the parser on:
  labels, layers and MANUAL annotation sets built from their attributes.
\<close>

definition ex_label :: "(string \<times> string) list \<Rightarrow> element" where
  "ex_label kv = Element ''label'' (map_of kv) None []"

definition ex_layer :: "string \<Rightarrow> element list \<Rightarrow> element" where
  "ex_layer n labels = Element ''layer'' (map_of [(''name'', n)]) None labels"

definition ex_annotationSet :: "string \<Rightarrow> element list \<Rightarrow> element" where
  "ex_annotationSet i layers =
     Element ''annotationSet'' (map_of [(''ID'', i), (''status'', ''MANUAL''), (''frameName'', ''Giving'')])
       None layers"

definition ex_target :: element where
  "ex_target = ex_layer ''Target'' [ex_label [(''start'', ''5''), (''end'', ''16''), (''name'', ''Target'')]]"


definition ex_FE :: element where
  "ex_FE = ex_layer ''FE''
     [ex_label [(''name'', ''Theme''), (''itype'', ''DNI''), (''start'', ''30''), (''end'', ''33'')],
      ex_label [(''name'', ''Donor''), (''end'', ''3'')],
      ex_label [(''start'', ''18''), (''end'', ''28''), (''name'', ''Recipient'')]]"


section \<open>Annotation distributor\<close>

text \<open>
  The file system the distributor writes to: the paths that exist as directories, the
  files by path, and what was printed. A text file holds the sentence; an \<^verbatim>\<open>.ann\<close> file
  holds the pickled annotation. Writes succeed in this model.
\<close>

datatype content = Text string | Pickle Annotation

record fs =
  dirs :: "string set"
  files :: "string \<rightharpoonup> content"
  stdout :: "string list"

text \<open>The inner loop: one \<^verbatim>\<open>.ann\<close> file per annotation of the record.\<close>

fun dump_anns :: "string \<Rightarrow> Annotation list \<Rightarrow> fs \<Rightarrow> fs" where
  "dump_anns output_dir [] st = st"
| "dump_anns output_dir (ann # rest) st =
     dump_anns output_dir rest
       (st\<lparr>files := (files st)(output_dir @ ''/'' @ ann_id ann @ ''.ann'' \<mapsto> Pickle ann)\<rparr>)"

text \<open>
  The loop over the records. \<^verbatim>\<open>anns[0]\<close> raises \<^verbatim>\<open>IndexError\<close> on an empty list;
  the exception leaves the loop with the file system as it is at that moment.
\<close>

fun distribute_loop ::
    "string \<Rightarrow> bool \<Rightarrow> (string \<times> Annotation list) list \<Rightarrow> fs \<Rightarrow> fs \<times> error option" where
  "distribute_loop output_dir print_sent_path [] st = (st, None)"
| "distribute_loop output_dir print_sent_path ((sent, anns) # rest) st =
     (case anns of
        [] \<Rightarrow> (st, Some IndexError)
      | a0 # _ \<Rightarrow>
          (let sent_dir = output_dir @ ''/'' @ sent_id a0 @ ''.txt'';
               st1 = (if print_sent_path then st\<lparr>stdout := stdout st @ [sent_dir]\<rparr> else st);
               st2 = st1\<lparr>files := (files st1)(sent_dir \<mapsto> Text sent)\<rparr>
           in distribute_loop output_dir print_sent_path rest (dump_anns output_dir anns st2)))"

definition distribute_annotations ::
    "(string \<times> Annotation list) list \<Rightarrow> string \<Rightarrow> bool \<Rightarrow> fs \<Rightarrow> fs \<times> error option" where
  "distribute_annotations annotations output_dir print_sent_path st =
     distribute_loop output_dir print_sent_path annotations
       (if output_dir \<notin> dirs st then st\<lparr>dirs := insert output_dir (dirs st)\<rparr> else st)"

text \<open>An annotation of the test data, to run the distributor on.\<close>

definition ex_annotation :: Annotation where
  "ex_annotation = \<lparr>ann_id = ''2024608'', sent_id = ''1281539'', frame_name = ''Giving'',
     target = \<lparr>t_start = 5, t_end = 16\<rparr>,
     FE = [\<lparr>fe_start = 0, fe_end = 3, fe_name = ''Donor''\<rparr>]\<rparr>"

section \<open>Retokenization by insertion\<close>

text \<open>
  The strings the aligner is specified for: \<open>insert_runs s runs\<close> is \<open>s\<close> with the run
  \<open>runs ! k\<close> of extra characters inserted in front of \<open>s ! k\<close>, and the run
  \<open>runs ! length s\<close> appended after the last character; a missing run is empty.
  \<open>offset_in runs pos\<close> is where the character \<open>s ! pos\<close> then stands.
\<close>

fun insert_runs :: "'a list \<Rightarrow> 'a list list \<Rightarrow> 'a list" where
  "insert_runs s [] = s"
| "insert_runs [] (r # runs) = r"
| "insert_runs (c # cs) (r # runs) = r @ c # insert_runs cs runs"

definition offset_in :: "'a list list \<Rightarrow> nat \<Rightarrow> nat" where
  "offset_in runs pos = pos + length (concat (take (Suc pos) runs))"

text \<open>
  Two auxiliary views of the gap scan: the loop on the remaining suffixes of the two
  strings, and the gaps an insertion pattern gives rise to (one gap \<open>k\<close> for every
  character inserted in front of the \<open>k\<close>-th original character).
\<close>

fun scan_from :: "'a list \<Rightarrow> 'a list \<Rightarrow> nat \<Rightarrow> int list" where
  "scan_from [] ys i = []"
| "scan_from (x # xs) [] i = []"
| "scan_from (x # xs) (y # ys) i =
     (if x \<noteq> y then int i # scan_from (x # xs) ys i else scan_from xs ys (i + 1))"

fun run_gaps :: "nat \<Rightarrow> nat \<Rightarrow> 'a list list \<Rightarrow> int list" where
  "run_gaps i 0 runs = []"
| "run_gaps i (Suc n) [] = []"
| "run_gaps i (Suc n) (r # runs) = replicate (length r) (int i) @ run_gaps (i + 1) n runs"

section \<open>The correction function\<close>

lemma correct_pos_loop_next:
  "k < length gaps \<Longrightarrow> \<not> pos < gaps ! k \<Longrightarrow>
   correct_pos_loop gaps pos k i = correct_pos_loop gaps pos (k + 1) (Some k)"
  apply (subst correct_pos_loop.simps)
  apply (simp only: if_True if_False simp_thms)
  done

lemma correct_pos_loop_return:
  "k < length gaps \<Longrightarrow> pos < gaps ! k \<Longrightarrow> correct_pos_loop gaps pos k i = Inr (pos + int k)"
  apply (subst correct_pos_loop.simps)
  apply (simp only: if_True if_False simp_thms)
  done

lemma correct_pos_loop_exhausted:
  "\<not> k < length gaps \<Longrightarrow>
   correct_pos_loop gaps pos k i =
     (case i of None \<Rightarrow> Inl UnboundLocalError | Some i' \<Rightarrow> Inr (pos + int i' + 1))"
  apply (subst correct_pos_loop.simps)
  apply (simp only: if_True if_False simp_thms)
  done

text \<open>
  The loop from index \<open>k\<close> on, with the loop variable bound as the earlier iterations
  left it: it passes over the gaps that are not above \<open>pos\<close>.
\<close>

lemma correct_pos_loop_eq:
  "k \<le> length gaps \<Longrightarrow> i = (if k = 0 then None else Some (k - 1)) \<Longrightarrow>
   correct_pos_loop gaps pos k i =
     (if gaps = [] then Inl UnboundLocalError
      else Inr (pos + int (k + length (takeWhile (\<lambda>g. g \<le> pos) (drop k gaps)))))"
proof (induction gaps pos k i rule: correct_pos_loop.induct)
  case (1 gaps pos k i)
  show ?case
  proof (cases "k < length gaps")
    case True
    then have d: "drop k gaps = gaps ! k # drop (Suc k) gaps"
      by (simp add: Cons_nth_drop_Suc)
    from True have ne: "gaps \<noteq> []" by auto
    show ?thesis
    proof (cases "pos < gaps ! k")
      case lt: True
      have "takeWhile (\<lambda>g. g \<le> pos) (drop k gaps) = []"
        using lt by (simp add: d)
      then show ?thesis using ne correct_pos_loop_return[OF True lt] by simp
    next
      case ge: False
      have k1: "k + 1 \<le> length gaps" using True by simp
      have k2: "Some k = (if k + 1 = 0 then None else Some (k + 1 - 1))" by simp
      have ih: "correct_pos_loop gaps pos (k + 1) (Some k) =
          Inr (pos + int (k + 1 + length (takeWhile (\<lambda>g. g \<le> pos) (drop (k + 1) gaps))))"
        using "1.IH"[OF True ge k1 k2] ne by (simp only: if_False)
      have tw: "takeWhile (\<lambda>g. g \<le> pos) (drop k gaps) =
          gaps ! k # takeWhile (\<lambda>g. g \<le> pos) (drop (k + 1) gaps)"
        using ge by (simp add: d)
      show ?thesis using ne by (simp only: correct_pos_loop_next[OF True ge] ih tw) simp
    qed
  next
    case False
    with "1.prems" have k: "k = length gaps" by simp
    show ?thesis
    proof (cases "gaps = []")
      case True
      then show ?thesis using "1.prems" k correct_pos_loop_exhausted[OF False, of pos i] by simp
    next
      case ne: False
      then have "i = Some (length gaps - 1)" using "1.prems" k by simp
      then show ?thesis using ne k correct_pos_loop_exhausted[OF False, of pos i]
        by (simp add: Suc_leI)
    qed
  qed
qed

lemma correct_pos_eq:
  "correct_pos gaps pos =
     (if gaps = [] then Inl UnboundLocalError
      else Inr (pos + int (length (takeWhile (\<lambda>g. g \<le> pos) gaps))))"
  unfolding correct_pos_def by (subst correct_pos_loop_eq) simp_all

section \<open>The gap scan\<close>

lemma gap_scan_step_gap:
  "i < length sent \<Longrightarrow> j < length new_sent \<Longrightarrow> sent ! i \<noteq> new_sent ! j \<Longrightarrow>
   gap_scan sent new_sent i j gaps = gap_scan sent new_sent i (j + 1) (gaps @ [int i])"
  apply (subst gap_scan.simps)
  apply (simp only: if_True if_False simp_thms)
  done

lemma gap_scan_step_match:
  "i < length sent \<Longrightarrow> j < length new_sent \<Longrightarrow> sent ! i = new_sent ! j \<Longrightarrow>
   gap_scan sent new_sent i j gaps = gap_scan sent new_sent (i + 1) (j + 1) gaps"
  apply (subst gap_scan.simps)
  apply (simp only: if_True if_False simp_thms)
  done

lemma gap_scan_stop:
  "\<not> (i < length sent \<and> j < length new_sent) \<Longrightarrow> gap_scan sent new_sent i j gaps = gaps"
  apply (subst gap_scan.simps)
  apply (simp only: if_True if_False simp_thms)
  done

lemma scan_from_Nil2: "scan_from xs [] i = []"
  by (cases xs) simp_all

lemma gap_scan_scan_from:
  "i \<le> length sent \<Longrightarrow> j \<le> length new_sent \<Longrightarrow>
   gap_scan sent new_sent i j gaps = gaps @ scan_from (drop i sent) (drop j new_sent) i"
proof (induction sent new_sent i j gaps rule: gap_scan.induct)
  case (1 sent new_sent i j gaps)
  show ?case
  proof (cases "i < length sent \<and> j < length new_sent")
    case False
    then have "drop i sent = [] \<or> drop j new_sent = []" by auto
    then have "scan_from (drop i sent) (drop j new_sent) i = []"
      by (auto simp: scan_from_Nil2)
    then show ?thesis using gap_scan_stop[OF False] by simp
  next
    case True
    then have il: "i < length sent" and jl: "j < length new_sent" by simp_all
    have di: "drop i sent = sent ! i # drop (i + 1) sent"
      using il by (simp add: Cons_nth_drop_Suc)
    have dj: "drop j new_sent = new_sent ! j # drop (j + 1) new_sent"
      using jl by (simp add: Cons_nth_drop_Suc)
    have j1: "j + 1 \<le> length new_sent" using jl by simp
    have i1: "i + 1 \<le> length sent" using il by simp
    show ?thesis
    proof (cases "sent ! i \<noteq> new_sent ! j")
      case ne: True
      have "gap_scan sent new_sent i (j + 1) (gaps @ [int i]) =
          (gaps @ [int i]) @ scan_from (drop i sent) (drop (j + 1) new_sent) i"
        by (rule "1.IH"(1)[OF True ne "1.prems"(1) j1])
      moreover have "scan_from (drop i sent) (drop j new_sent) i =
          int i # scan_from (drop i sent) (drop (j + 1) new_sent) i"
        using ne by (simp add: dj) (simp add: di)
      ultimately show ?thesis using gap_scan_step_gap[OF il jl ne] by simp
    next
      case eq: False
      then have eq': "sent ! i = new_sent ! j" by simp
      have "gap_scan sent new_sent (i + 1) (j + 1) gaps =
          gaps @ scan_from (drop (i + 1) sent) (drop (j + 1) new_sent) (i + 1)"
        by (rule "1.IH"(2)[OF True eq i1 j1])
      moreover have "scan_from (drop i sent) (drop j new_sent) i =
          scan_from (drop (i + 1) sent) (drop (j + 1) new_sent) (i + 1)"
        using eq' by (simp add: dj di)
      ultimately show ?thesis using gap_scan_step_match[OF il jl eq'] by simp
    qed
  qed
qed

lemma scan_from_lower: "g \<in> set (scan_from xs ys i) \<Longrightarrow> int i \<le> g"
  by (induction xs ys i rule: scan_from.induct) (auto split: if_splits)

lemma scan_from_sorted: "sorted (scan_from xs ys i)"
  by (induction xs ys i rule: scan_from.induct) (auto dest: scan_from_lower)

lemma gap_scan_sorted: "sorted (gap_scan sent new_sent 0 0 [])"
  by (simp add: gap_scan_scan_from scan_from_sorted)

lemma scan_from_same: "scan_from xs xs i = []"
  by (induction xs arbitrary: i) simp_all

lemma takeWhile_le_sorted:
  "sorted (gaps :: int list) \<Longrightarrow> takeWhile (\<lambda>g. g \<le> pos) gaps = filter (\<lambda>g. g \<le> pos) gaps"
proof (induction gaps)
  case Nil
  then show ?case by simp
next
  case (Cons g gs)
  show ?case
  proof (cases "g \<le> pos")
    case True
    with Cons show ?thesis by simp
  next
    case False
    with Cons.prems have "\<forall>x\<in>set gs. \<not> x \<le> pos" by auto
    then have "filter (\<lambda>g. g \<le> pos) gs = []" by (simp add: filter_empty_conv)
    with False show ?thesis by simp
  qed
qed


lemma correct_FE_eq:
  "gaps \<noteq> [] \<Longrightarrow>
   correct_FE gaps fes acc =
     Inr (acc @ map (\<lambda>fe. \<lparr>fe_start = fe_start fe + int (length (takeWhile (\<lambda>g. g \<le> fe_start fe) gaps)),
                           fe_end = fe_end fe + int (length (takeWhile (\<lambda>g. g \<le> fe_end fe) gaps)),
                           fe_name = fe_name fe\<rparr>) fes)"
  by (induction fes arbitrary: acc) (simp_all add: correct_pos_eq)

lemma gaps_he_says:
  "gap_scan ''he says: I say: I love you'' ''he says : I say : I love you'' 0 0 [] = [7, 14]"
  by code_simp

section \<open>The gap scan on a string with inserted runs\<close>

lemma scan_from_run:
  "c \<notin> set r \<Longrightarrow>
   scan_from (c # cs) (r @ c # rest) i = replicate (length r) (int i) @ scan_from cs rest (i + 1)"
  by (induction r) auto

lemma scan_from_insert_runs:
  "(\<forall>k<length s. k < length runs \<longrightarrow> s ! k \<notin> set (runs ! k)) \<Longrightarrow>
   scan_from s (insert_runs s runs) i = run_gaps i (length s) runs"
proof (induction s runs arbitrary: i rule: insert_runs.induct)
  case (1 s)
  then show ?case by (cases s) (simp_all add: scan_from_same)
next
  case (2 r runs)
  then show ?case by simp
next
  case (3 c cs r runs)
  from "3.prems" have c: "c \<notin> set r" by auto
  have "\<forall>k<length cs. k < length runs \<longrightarrow> cs ! k \<notin> set (runs ! k)"
  proof (intro allI impI)
    fix k assume "k < length cs" "k < length runs"
    with "3.prems" have "(c # cs) ! Suc k \<notin> set ((r # runs) ! Suc k)"
      by (metis Suc_less_eq length_Cons)
    then show "cs ! k \<notin> set (runs ! k)" by simp
  qed
  then have "scan_from cs (insert_runs cs runs) (i + 1) = run_gaps (i + 1) (length cs) runs"
    by (rule "3.IH")
  then show ?case using c by (simp add: scan_from_run)
qed

lemma run_gaps_lower: "g \<in> set (run_gaps i n runs) \<Longrightarrow> int i \<le> g"
  by (induction i n runs rule: run_gaps.induct) auto

lemma run_gaps_count:
  "pos < n \<Longrightarrow>
   length (filter (\<lambda>g. g \<le> int (i + pos)) (run_gaps i n runs)) = length (concat (take (Suc pos) runs))"
proof (induction i n runs arbitrary: pos rule: run_gaps.induct)
  case (1 i runs)
  then show ?case by simp
next
  case (2 i n)
  then show ?case by simp
next
  case (3 i n r runs)
  show ?case
  proof (cases pos)
    case 0
    have "filter (\<lambda>g. g \<le> int i) (run_gaps (i + 1) n runs) = []"
      by (auto simp: filter_empty_conv dest: run_gaps_lower)
    with 0 show ?thesis by simp
  next
    case (Suc p)
    with "3.prems" have "p < n" by simp
    then have "length (filter (\<lambda>g. g \<le> int (i + 1 + p)) (run_gaps (i + 1) n runs))
        = length (concat (take (Suc p) runs))"
      by (rule "3.IH")
    with Suc show ?thesis by simp
  qed
qed

lemma run_gaps_nonempty:
  "k < n \<Longrightarrow> k < length runs \<Longrightarrow> runs ! k \<noteq> [] \<Longrightarrow> run_gaps i n runs \<noteq> []"
proof (induction i n runs arbitrary: k rule: run_gaps.induct)
  case (3 i n r runs)
  then show ?case by (cases k) auto
qed simp_all

lemma insert_runs_nth:
  "pos < length s \<Longrightarrow> insert_runs s runs ! offset_in runs pos = s ! pos"
proof (induction s runs arbitrary: pos rule: insert_runs.induct)
  case (1 s)
  then show ?case by (simp add: offset_in_def)
next
  case (2 r runs)
  then show ?case by simp
next
  case (3 c cs r runs)
  show ?case
  proof (cases pos)
    case 0
    then show ?thesis by (simp add: offset_in_def)
  next
    case (Suc p)
    with "3.prems" have "p < length cs" by simp
    then have ih: "insert_runs cs runs ! offset_in runs p = cs ! p" by (rule "3.IH")
    have "offset_in (r # runs) (Suc p) = length r + Suc (offset_in runs p)"
      by (simp add: offset_in_def)
    then show ?thesis using Suc ih by (simp add: nth_append)
  qed
qed

lemma gap_scan_insert_runs:
  "(\<forall>k<length s. k < length runs \<longrightarrow> s ! k \<notin> set (runs ! k)) \<Longrightarrow>
   gap_scan s (insert_runs s runs) 0 0 [] = run_gaps 0 (length s) runs"
  by (simp add: gap_scan_scan_from scan_from_insert_runs)

section \<open>The loop over the annotations\<close>

lemma correct_FE_rel:
  "correct_FE gaps fes acc = Inr out \<Longrightarrow>
   \<exists>new. out = acc @ new \<and>
     list_all2 (\<lambda>fe nfe. fe_name nfe = fe_name fe
        \<and> correct_pos gaps (fe_start fe) = Inr (fe_start nfe)
        \<and> correct_pos gaps (fe_end fe) = Inr (fe_end nfe)) fes new"
proof (induction fes arbitrary: acc)
  case Nil
  then show ?case by simp
next
  case (Cons fe fes)
  from Cons.prems obtain s en where s: "correct_pos gaps (fe_start fe) = Inr s"
    and en: "correct_pos gaps (fe_end fe) = Inr en"
    and rest: "correct_FE gaps fes (acc @ [\<lparr>fe_start = s, fe_end = en, fe_name = fe_name fe\<rparr>]) = Inr out"
    by (auto split: sum.splits)
  from Cons.IH[OF rest] obtain new where
    "out = (acc @ [\<lparr>fe_start = s, fe_end = en, fe_name = fe_name fe\<rparr>]) @ new"
    and "list_all2 (\<lambda>fe nfe. fe_name nfe = fe_name fe
        \<and> correct_pos gaps (fe_start fe) = Inr (fe_start nfe)
        \<and> correct_pos gaps (fe_end fe) = Inr (fe_end nfe)) fes new"
    by blast
  then show ?case using s en
    by (intro exI[of _ "\<lparr>fe_start = s, fe_end = en, fe_name = fe_name fe\<rparr> # new"]) simp
qed

lemma correct_ann_rel:
  assumes "correct_ann gaps ann = Inr new"
  shows "ann_id new = ann_id ann \<and> sent_id new = sent_id ann \<and> frame_name new = frame_name ann
     \<and> correct_pos gaps (t_start (target ann)) = Inr (t_start (target new))
     \<and> correct_pos gaps (t_end (target ann)) = Inr (t_end (target new))
     \<and> list_all2 (\<lambda>fe nfe. fe_name nfe = fe_name fe
        \<and> correct_pos gaps (fe_start fe) = Inr (fe_start nfe)
        \<and> correct_pos gaps (fe_end fe) = Inr (fe_end nfe)) (FE ann) (FE new)"
proof -
  from assms obtain s en fes where s: "correct_pos gaps (t_start (target ann)) = Inr s"
    and en: "correct_pos gaps (t_end (target ann)) = Inr en"
    and fes: "correct_FE gaps (FE ann) [] = Inr fes"
    and new: "new = \<lparr>ann_id = ann_id ann, sent_id = sent_id ann, frame_name = frame_name ann,
                     target = \<lparr>t_start = s, t_end = en\<rparr>, FE = fes\<rparr>"
    unfolding correct_ann_def by (auto split: sum.splits)
  from correct_FE_rel[OF fes] show ?thesis using s en new by simp
qed

lemma align_loop_rel:
  "align_loop gaps anns acc = Inr out \<Longrightarrow>
   \<exists>new. out = acc @ new \<and>
     list_all2 (\<lambda>ann new. ann_id new = ann_id ann \<and> sent_id new = sent_id ann
        \<and> frame_name new = frame_name ann
        \<and> correct_pos gaps (t_start (target ann)) = Inr (t_start (target new))
        \<and> correct_pos gaps (t_end (target ann)) = Inr (t_end (target new))
        \<and> list_all2 (\<lambda>fe nfe. fe_name nfe = fe_name fe
             \<and> correct_pos gaps (fe_start fe) = Inr (fe_start nfe)
             \<and> correct_pos gaps (fe_end fe) = Inr (fe_end nfe)) (FE ann) (FE new)) anns new"
proof (induction anns arbitrary: acc)
  case Nil
  then show ?case by simp
next
  case (Cons ann anns)
  from Cons.prems obtain a where a: "correct_ann gaps ann = Inr a"
    and rest: "align_loop gaps anns (acc @ [a]) = Inr out"
    by (auto split: sum.splits)
  from Cons.IH[OF rest] obtain new where out: "out = (acc @ [a]) @ new"
    and all: "list_all2 (\<lambda>ann new. ann_id new = ann_id ann \<and> sent_id new = sent_id ann
        \<and> frame_name new = frame_name ann
        \<and> correct_pos gaps (t_start (target ann)) = Inr (t_start (target new))
        \<and> correct_pos gaps (t_end (target ann)) = Inr (t_end (target new))
        \<and> list_all2 (\<lambda>fe nfe. fe_name nfe = fe_name fe
             \<and> correct_pos gaps (fe_start fe) = Inr (fe_start nfe)
             \<and> correct_pos gaps (fe_end fe) = Inr (fe_end nfe)) (FE ann) (FE new)) anns new"
    by blast
  show ?case
    using out all correct_ann_rel[OF a] by (intro exI[of _ "a # new"]) simp
qed

lemma align_loop_succeeds: "gaps \<noteq> [] \<Longrightarrow> \<exists>out. align_loop gaps anns acc = Inr out"
  by (induction anns arbitrary: acc) (simp_all add: correct_ann_def correct_pos_eq correct_FE_eq)




section \<open>Claims about the aligner\<close>

text \<open>
  C2, as the code has it. On a non-empty ascending gap list the correction function
  returns \<open>pos + k\<close>, where \<open>k\<close> is the number of gaps passed before the first gap that is
  strictly above \<open>pos\<close> (all of them when there is none); that is \<open>pos\<close> plus the number of
  gaps \<open>\<le> pos\<close>. A gap equal to \<open>pos\<close> counts: the loop tests \<^verbatim>\<open>pos < gaps[i]\<close>.
\<close>

theorem correct_pos_counts_gaps_not_above:
  assumes "sorted gaps" and "gaps \<noteq> []"
  shows "correct_pos gaps pos = Inr (pos + int (length (takeWhile (\<lambda>g. g \<le> pos) gaps)))
       \<and> correct_pos gaps pos = Inr (pos + int (length (filter (\<lambda>g. g \<le> pos) gaps)))"
  using assms by (simp add: correct_pos_eq takeWhile_le_sorted)

theorem correct_pos_counts_gaps_not_above_witness:
  "sorted [7, 14 :: int] \<and> [7, 14 :: int] \<noteq> [] \<and> correct_pos [7, 14] 7 = Inr 8
     \<and> length (filter (\<lambda>g. g \<le> 7) [7, 14 :: int]) = 1"
  using correct_pos_counts_gaps_not_above [of "[7, 14]" 7] by simp

text \<open>
  C2 as the specification words it, \<open>pos\<close> plus the number of gaps strictly below \<open>pos\<close>,
  fails where a gap equals \<open>pos\<close>: with the one gap 7, offset 7 is corrected to 8, while
  no gap is below 7.
\<close>

theorem correct_pos_gap_at_pos_counterexample:
  "sorted [7 :: int] \<and> correct_pos [7] 7 = Inr 8
     \<and> 7 + int (length (filter (\<lambda>g. g < 7) [7 :: int])) = 7
     \<and> correct_pos [7] 7 \<noteq> Inr (7 + int (length (filter (\<lambda>g. g < 7) [7 :: int])))"
  by (simp add: correct_pos_eq)

text \<open>
  C3 at a retokenized string that differs from the original by one trailing space only:
  the scan records no gap, and with no gap the correction of the first offset raises
  \<^verbatim>\<open>UnboundLocalError\<close>, so the alignment of a non-empty annotation list does not
  succeed.
\<close>

theorem align_trailing_insertion_unbound:
  "align_annotation_with_sentence ''ab'' ''ab ''
     [\<lparr>ann_id = ''1'', sent_id = ''1'', frame_name = ''f'', target = \<lparr>t_start = 0, t_end = 1\<rparr>,
       FE = []\<rparr>] = Inl UnboundLocalError
   \<and> gap_scan ''ab'' ''ab '' 0 0 [] = []"
  by (simp add: align_annotation_with_sentence_def gap_scan_scan_from correct_ann_def correct_pos_eq)

text \<open>
  C5, the scenario of the doctest: the first annotation keeps its target \<open>(0, 1)\<close> and its
  frame element \<open>(3, 6)\<close>, and \<open>(7, 7)\<close> becomes \<open>(8, 8)\<close>. The scan finds the gaps 7 and 14,
  so an offset below 7 is unchanged, an offset from 7 on is shifted by the space inserted
  before the first colon, and from 14 on by the second space as well.
\<close>

theorem align_he_says:
  "align_annotation_with_sentence ''he says: I say: I love you'' ''he says : I say : I love you''
     [\<lparr>ann_id = ''1'', sent_id = ''1'', frame_name = ''he'', target = \<lparr>t_start = 0, t_end = 1\<rparr>,
       FE = [\<lparr>fe_start = 3, fe_end = 6, fe_name = ''says''\<rparr>,
             \<lparr>fe_start = 7, fe_end = 7, fe_name = '':''\<rparr>]\<rparr>]
   = Inr [\<lparr>ann_id = ''1'', sent_id = ''1'', frame_name = ''he'', target = \<lparr>t_start = 0, t_end = 1\<rparr>,
       FE = [\<lparr>fe_start = 3, fe_end = 6, fe_name = ''says''\<rparr>,
             \<lparr>fe_start = 8, fe_end = 8, fe_name = '':''\<rparr>]\<rparr>]
   \<and> (\<forall>pos. correct_pos
          (gap_scan ''he says: I say: I love you'' ''he says : I say : I love you'' 0 0 []) pos
        = Inr (if pos < 7 then pos else if pos < 14 then pos + 1 else pos + 2))"
  by (simp add: align_annotation_with_sentence_def gaps_he_says correct_ann_def correct_pos_eq)

text \<open>
  C1, as the code has it. Let \<open>s'\<close> be \<open>s\<close> with runs of characters inserted, where no run
  placed in front of an original character contains that character, and at least one
  character is inserted in front of some original character. Then the gap scan on
  \<open>(s, s')\<close> followed by the correction function sends every original offset \<open>pos\<close> to the
  offset of the corresponding character in \<open>s'\<close>, and that character of \<open>s'\<close> is \<open>s ! pos\<close>.
  Runs after the last original character are allowed.
\<close>

theorem correct_pos_insert_runs:
  assumes "\<forall>k<length s. k < length runs \<longrightarrow> s ! k \<notin> set (runs ! k)"
    and "\<exists>k<length s. k < length runs \<and> runs ! k \<noteq> []"
    and "pos < length s"
  shows "correct_pos (gap_scan s (insert_runs s runs) 0 0 []) (int pos) = Inr (int (offset_in runs pos))
       \<and> insert_runs s runs ! offset_in runs pos = s ! pos"
proof -
  let ?gaps = "gap_scan s (insert_runs s runs) 0 0 []"
  have g: "?gaps = run_gaps 0 (length s) runs"
    using assms(1) by (rule gap_scan_insert_runs)
  from assms(2) have ne: "?gaps \<noteq> []"
    unfolding g by (auto dest: run_gaps_nonempty)
  have "sorted ?gaps" by (rule gap_scan_sorted)
  then have "takeWhile (\<lambda>g. g \<le> int pos) ?gaps = filter (\<lambda>g. g \<le> int pos) ?gaps"
    by (rule takeWhile_le_sorted)
  moreover have "length (filter (\<lambda>g. g \<le> int pos) ?gaps) = length (concat (take (Suc pos) runs))"
    unfolding g using run_gaps_count[OF assms(3), of 0 runs] by simp
  ultimately have "correct_pos ?gaps (int pos) = Inr (int (offset_in runs pos))"
    using ne by (simp add: correct_pos_eq offset_in_def)
  then show ?thesis using insert_runs_nth[OF assms(3)] by simp
qed

theorem correct_pos_insert_runs_witness:
  "correct_pos (gap_scan ''a:b'' (insert_runs ''a:b'' ['''', '' '', '''', ''.'']) 0 0 []) 1 = Inr 2
   \<and> insert_runs ''a:b'' ['''', '' '', '''', ''.''] = ''a :b.''
   \<and> offset_in ['''', '' '', '''', ''.''] 1 = 2"
proof -
  have 1: "\<forall>k<length ''a:b''. k < length ['''', '' '', '''', ''.''] \<longrightarrow> ''a:b'' ! k \<notin> set (['''', '' '', '''', ''.''] ! k)"
    by (simp add: less_Suc_eq all_conj_distrib)
  have 2: "\<exists>k<length ''a:b''. k < length ['''', '' '', '''', ''.''] \<and> ['''', '' '', '''', ''.''] ! k \<noteq> []"
    by (rule exI[of _ 1]) simp
  have 3: "1 < length ''a:b''" by simp
  show ?thesis using correct_pos_insert_runs[OF 1 2 3] by (simp add: offset_in_def)
qed

text \<open>
  C1 for any inserted characters fails where an inserted character equals the original
  character it is put in front of: the greedy scan matches the inserted one. Inserting
  \<open>a\<close> in front of \<open>ab\<close> moves the original \<open>a\<close> to offset 1, and offset 0 is corrected
  to 0.
\<close>

theorem correct_pos_greedy_counterexample:
  "insert_runs ''ab'' [''a''] = ''aab'' \<and> offset_in [''a''] 0 = 1
   \<and> correct_pos (gap_scan ''ab'' (insert_runs ''ab'' [''a'']) 0 0 []) 0 = Inr 0
   \<and> correct_pos (gap_scan ''ab'' (insert_runs ''ab'' [''a'']) 0 0 []) 0
         \<noteq> Inr (int (offset_in [''a''] 0))"
  by (simp add: offset_in_def gap_scan_scan_from correct_pos_eq)


text \<open>
  C8. The aligner returns a list whenever the strings are equal or the scan records a
  gap, and every list it returns matches the input annotation by annotation, in order:
  same id, sent_id and frame_name, the frame elements matching one by one, in order, with
  the same names, and each of the offsets (target start and end, each frame element's
  start and end) the correction of the corresponding input offset alone.
\<close>

theorem align_rewrites_offsets_only:
  "(sent = new_sent \<or> gap_scan sent new_sent 0 0 [] \<noteq> [] \<longrightarrow>
      (\<exists>new_anns. align_annotation_with_sentence sent new_sent annotations = Inr new_anns))
   \<and> (\<forall>new_anns. align_annotation_with_sentence sent new_sent annotations = Inr new_anns \<longrightarrow>
        list_all2 (\<lambda>ann new. ann_id new = ann_id ann \<and> sent_id new = sent_id ann
           \<and> frame_name new = frame_name ann
           \<and> corrected_to sent new_sent (t_start (target ann)) (t_start (target new))
           \<and> corrected_to sent new_sent (t_end (target ann)) (t_end (target new))
           \<and> list_all2 (\<lambda>fe nfe. fe_name nfe = fe_name fe
                \<and> corrected_to sent new_sent (fe_start fe) (fe_start nfe)
                \<and> corrected_to sent new_sent (fe_end fe) (fe_end nfe)) (FE ann) (FE new))
          annotations new_anns)"
proof (cases "sent = new_sent")
  case True
  then show ?thesis
    by (simp add: align_annotation_with_sentence_def corrected_to_def list_all2_same)
next
  case False
  show ?thesis
  proof (intro conjI impI allI)
    assume "sent = new_sent \<or> gap_scan sent new_sent 0 0 [] \<noteq> []"
    with False have "gap_scan sent new_sent 0 0 [] \<noteq> []" by simp
    then show "\<exists>new_anns. align_annotation_with_sentence sent new_sent annotations = Inr new_anns"
      using False align_loop_succeeds[of "gap_scan sent new_sent 0 0 []" annotations "[]"]
      by (simp add: align_annotation_with_sentence_def)
  next
    fix new_anns
    assume "align_annotation_with_sentence sent new_sent annotations = Inr new_anns"
    with False have "align_loop (gap_scan sent new_sent 0 0 []) annotations [] = Inr new_anns"
      by (simp add: align_annotation_with_sentence_def)
    from align_loop_rel[OF this] show "list_all2 (\<lambda>ann new. ann_id new = ann_id ann \<and> sent_id new = sent_id ann
           \<and> frame_name new = frame_name ann
           \<and> corrected_to sent new_sent (t_start (target ann)) (t_start (target new))
           \<and> corrected_to sent new_sent (t_end (target ann)) (t_end (target new))
           \<and> list_all2 (\<lambda>fe nfe. fe_name nfe = fe_name fe
                \<and> corrected_to sent new_sent (fe_start fe) (fe_start nfe)
                \<and> corrected_to sent new_sent (fe_end fe) (fe_end nfe)) (FE ann) (FE new))
          annotations new_anns"
      using False by (simp add: corrected_to_def)
  qed
qed

theorem align_rewrites_offsets_only_witness:
  "\<exists>new. align_annotation_with_sentence ''a:b'' ''a :b''
      [\<lparr>ann_id = ''1'', sent_id = ''2'', frame_name = ''f'', target = \<lparr>t_start = 0, t_end = 1\<rparr>,
        FE = [\<lparr>fe_start = 2, fe_end = 2, fe_name = ''n''\<rparr>]\<rparr>] = Inr [new]
     \<and> ann_id new = ''1'' \<and> sent_id new = ''2'' \<and> frame_name new = ''f''
     \<and> map fe_name (FE new) = [''n'']"
proof -
  let ?anns = "[\<lparr>ann_id = ''1'', sent_id = ''2'', frame_name = ''f'', target = \<lparr>t_start = 0, t_end = 1\<rparr>,
        FE = [\<lparr>fe_start = 2, fe_end = 2, fe_name = ''n''\<rparr>]\<rparr>]"
  note t = align_rewrites_offsets_only[of "''a:b''" "''a :b''" ?anns]
  have g: "gap_scan ''a:b'' ''a :b'' 0 0 [] \<noteq> []"
    by (simp add: gap_scan_scan_from)
  from t[THEN conjunct1, rule_format, OF disjI2, OF g]
  obtain new_anns where a: "align_annotation_with_sentence ''a:b'' ''a :b'' ?anns = Inr new_anns" ..
  from t[THEN conjunct2, rule_format, OF a]
  obtain new where n: "new_anns = [new]" and i: "ann_id new = ''1''" "sent_id new = ''2''"
      "frame_name new = ''f''"
    and f: "list_all2 (\<lambda>fe nfe. fe_name nfe = fe_name fe
                \<and> corrected_to ''a:b'' ''a :b'' (fe_start fe) (fe_start nfe)
                \<and> corrected_to ''a:b'' ''a :b'' (fe_end fe) (fe_end nfe))
              [\<lparr>fe_start = 2, fe_end = 2, fe_name = ''n''\<rparr>] (FE new)"
    by (clarsimp simp: list_all2_Cons1)
  from f have "map fe_name (FE new) = [''n'']"
    by (clarsimp simp: list_all2_Cons1)
  with a n i show ?thesis by (intro exI[of _ new]) simp
qed


section \<open>The parser's loops\<close>

lemma FE_of_label_no_start: "attrib label ''start'' = None \<Longrightarrow> FE_of_label py_int label = Inr None"
  by (simp add: FE_of_label_def)

lemma FE_of_label_start:
  "attrib label ''start'' \<noteq> None \<Longrightarrow> FE_of_label py_int label \<noteq> Inr None"
  by (auto simp: FE_of_label_def split: sum.splits)

lemma FE_loop_rel:
  "FE_loop py_int labels acc = Inr out \<Longrightarrow>
   \<exists>new. out = acc @ new \<and>
     list_all2 (\<lambda>label fe. FE_of_label py_int label = Inr (Some fe))
       (filter (\<lambda>l. attrib l ''start'' \<noteq> None) labels) new"
proof (induction labels arbitrary: acc)
  case Nil
  then show ?case by simp
next
  case (Cons label labels)
  show ?case
  proof (cases "attrib label ''start'' = None")
    case True
    then have "FE_loop py_int labels acc = Inr out"
      using Cons.prems by (simp add: FE_of_label_no_start)
    from Cons.IH[OF this] show ?thesis using True by simp
  next
    case False
    with Cons.prems obtain fe where fe: "FE_of_label py_int label = Inr (Some fe)"
      and rest: "FE_loop py_int labels (acc @ [fe]) = Inr out"
      using FE_of_label_start[OF False, of py_int]
      by (auto split: sum.splits option.splits)
    from Cons.IH[OF rest] obtain new where "out = (acc @ [fe]) @ new"
      and "list_all2 (\<lambda>label fe. FE_of_label py_int label = Inr (Some fe))
       (filter (\<lambda>l. attrib l ''start'' \<noteq> None) labels) new"
      by blast
    then show ?thesis using False fe by (intro exI[of _ "fe # new"]) simp
  qed
qed

lemma parse_annotationSet_FE:
  "parse_annotationSet py_int sid sent_str a = Inr (Some ann, w) \<Longrightarrow>
   FE_loop py_int (xpath_FE_labels a) [] = Inr (FE ann)"
  by (auto simp: parse_annotationSet_def Let_def split: sum.splits if_splits)








lemma decimal_examples:
  "decimal ''0'' = Some 0" "decimal ''3'' = Some 3" "decimal ''5'' = Some 5"
  "decimal ''16'' = Some 16" "decimal ''18'' = Some 18" "decimal ''28'' = Some 28"
  "decimal ''30'' = Some 30" "decimal ''33'' = Some 33" "decimal ''abc'' = None"
  "decimal '' +16 '' = Some 16" "decimal ''- 5'' = Some (- 5)" "decimal ''5L'' = None"
  by (simp_all add: decimal_def is_space_def is_digit_def digits_def)

lemma ex_parse: "parse_annotationSet decimal ''1281539'' ''Your'' (ex_annotationSet ''2024608'' [ex_target, ex_FE])
   = Inr (Some \<lparr>ann_id = ''2024608'', sent_id = ''1281539'', frame_name = ''Giving'',
      target = \<lparr>t_start = 5, t_end = 16\<rparr>, FE = [\<lparr>fe_start = 18, fe_end = 28, fe_name = ''Recipient''\<rparr>]\<rparr>, [])"
  by (simp add: parse_annotationSet_def ex_annotationSet_def ex_target_def ex_FE_def ex_layer_def
      ex_label_def xpath_layer_labels_def xpath_children_def xpath_FE_labels_def getitem_def
      int_of_attr_def FE_of_label_def decimal_examples)



lemma FE_of_label_no_end:
  assumes "attrib label ''start'' = Some sv" and "py_int sv \<noteq> None"
    and "attrib label ''end'' = None"
  shows "FE_of_label py_int label = Inl (KeyError ''end'')"
  using assms by (auto simp: FE_of_label_def int_of_attr_def getitem_def)

lemma FE_of_label_no_name:
  assumes "attrib label ''start'' = Some sv" and "py_int sv \<noteq> None"
    and "attrib label ''end'' = Some ev" and "py_int ev \<noteq> None"
    and "attrib label ''name'' = None"
  shows "FE_of_label py_int label = Inl (KeyError ''name'')"
  using assms by (auto simp: FE_of_label_def int_of_attr_def getitem_def)













section \<open>The distributor's loop\<close>

lemma distribute_loop_append:
  "distribute_loop output_dir p (xs @ ys) st =
     (case distribute_loop output_dir p xs st of
        (st', None) \<Rightarrow> distribute_loop output_dir p ys st'
      | (st', Some e) \<Rightarrow> (st', Some e))"
  by (induction output_dir p xs st rule: distribute_loop.induct)
     (auto simp: Let_def split: list.splits)

lemma distribute_loop_ok:
  "snd (distribute_loop output_dir p xs st) = None \<longleftrightarrow> (\<forall>(s, anns)\<in>set xs. anns \<noteq> [])"
  by (induction output_dir p xs st rule: distribute_loop.induct)
     (auto simp: Let_def split: list.splits)

section \<open>Claims about the parser\<close>




text \<open>
  C7. The frame elements of a parsed annotation are, one by one and in order, those of
  the labels of its FE layers that have no \<^verbatim>\<open>itype\<close> attribute and have a
  \<^verbatim>\<open>start\<close> attribute: a label with \<^verbatim>\<open>itype\<close>, or without \<^verbatim>\<open>start\<close>, has no
  frame element in the output, whatever its other attributes.
\<close>

theorem FE_null_instantiation_filtered:
  assumes "parse_annotationSet py_int sid sent_str a = Inr (Some ann, w)"
  shows "list_all2 (\<lambda>label fe. FE_of_label py_int label = Inr (Some fe))
           (filter (\<lambda>l. attrib l ''itype'' = None \<and> attrib l ''start'' \<noteq> None)
              (xpath_layer_labels ''FE'' a))
           (FE ann)"
proof -
  from parse_annotationSet_FE[OF assms] FE_loop_rel[of py_int "xpath_FE_labels a" "[]" "FE ann"]
  have "list_all2 (\<lambda>label fe. FE_of_label py_int label = Inr (Some fe))
       (filter (\<lambda>l. attrib l ''start'' \<noteq> None) (xpath_FE_labels a)) (FE ann)"
    by simp
  then show ?thesis by (simp add: xpath_FE_labels_def)
qed

theorem FE_null_instantiation_filtered_witness:
  "\<exists>ann w. parse_annotationSet decimal ''1281539'' ''Your''
       (ex_annotationSet ''2024608'' [ex_target, ex_FE]) = Inr (Some ann, w)
     \<and> length (xpath_layer_labels ''FE'' (ex_annotationSet ''2024608'' [ex_target, ex_FE])) = 3
     \<and> length (FE ann) = 1"
proof -
  obtain ann w where p: "parse_annotationSet decimal ''1281539'' ''Your''
       (ex_annotationSet ''2024608'' [ex_target, ex_FE]) = Inr (Some ann, w)"
    using ex_parse by blast
  have l: "xpath_layer_labels ''FE'' (ex_annotationSet ''2024608'' [ex_target, ex_FE]) =
     [ex_label [(''name'', ''Theme''), (''itype'', ''DNI''), (''start'', ''30''), (''end'', ''33'')],
      ex_label [(''name'', ''Donor''), (''end'', ''3'')],
      ex_label [(''start'', ''18''), (''end'', ''28''), (''name'', ''Recipient'')]]"
    by (simp add: ex_annotationSet_def ex_target_def ex_FE_def ex_layer_def
        xpath_layer_labels_def xpath_children_def ex_label_def)
  from FE_null_instantiation_filtered[OF p]
  have "length (FE ann) = 1"
    unfolding l by (auto simp: ex_label_def list_all2_Cons1)
  with p l show ?thesis by simp
qed





section \<open>Claim about the distributor\<close>

text \<open>
  C10. The distributor finishes without an exception exactly when every record has a
  non-empty annotation list. At the first record with an empty list it raises
  \<^verbatim>\<open>IndexError\<close>, and the file system is then what the records before it made it:
  nothing of that sentence, and nothing after it, is written.
\<close>

theorem distribute_empty_record_index_error:
  "(snd (distribute_annotations annotations output_dir p st) = None \<longleftrightarrow>
      (\<forall>(s, anns)\<in>set annotations. anns \<noteq> []))
   \<and> ((\<forall>(s, anns)\<in>set pre. anns \<noteq> []) \<longrightarrow>
        distribute_annotations (pre @ (sent, []) # post) output_dir p st =
          (fst (distribute_annotations pre output_dir p st), Some IndexError))"
proof (intro conjI impI)
  show "snd (distribute_annotations annotations output_dir p st) = None \<longleftrightarrow>
      (\<forall>(s, anns)\<in>set annotations. anns \<noteq> [])"
    unfolding distribute_annotations_def by (rule distribute_loop_ok)
next
  assume a: "\<forall>(s, anns)\<in>set pre. anns \<noteq> []"
  let ?st0 = "if output_dir \<notin> dirs st then st\<lparr>dirs := insert output_dir (dirs st)\<rparr> else st"
  from a have "snd (distribute_loop output_dir p pre ?st0) = None"
    by (simp only: distribute_loop_ok)
  then obtain st1 where pre: "distribute_loop output_dir p pre ?st0 = (st1, None)"
    by (cases "distribute_loop output_dir p pre ?st0") simp
  have "distribute_loop output_dir p (pre @ (sent, []) # post) ?st0 = (st1, Some IndexError)"
    by (simp only: distribute_loop_append pre) simp
  then show "distribute_annotations (pre @ (sent, []) # post) output_dir p st =
          (fst (distribute_annotations pre output_dir p st), Some IndexError)"
    by (simp only: distribute_annotations_def pre fst_conv)
qed


theorem distribute_empty_record_index_error_witness:
  "distribute_annotations [(''Your contribution'', [ex_annotation]), (''to Goodwill'', [])] ''out'' False
      \<lparr>dirs = {}, files = Map.empty, stdout = []\<rparr>
    = (fst (distribute_annotations [(''Your contribution'', [ex_annotation])] ''out'' False
         \<lparr>dirs = {}, files = Map.empty, stdout = []\<rparr>), Some IndexError)
   \<and> dom (files (fst (distribute_annotations
         [(''Your contribution'', [ex_annotation]), (''to Goodwill'', [])] ''out'' False
         \<lparr>dirs = {}, files = Map.empty, stdout = []\<rparr>)))
      = {''out/1281539.txt'', ''out/2024608.ann''}"
proof -
  have h: "\<forall>(s, anns)\<in>set [(''Your contribution'', [ex_annotation])]. anns \<noteq> []" by simp
  have 1: "distribute_annotations ([(''Your contribution'', [ex_annotation])] @ (''to Goodwill'', []) # []) ''out'' False
      \<lparr>dirs = {}, files = Map.empty, stdout = []\<rparr>
    = (fst (distribute_annotations [(''Your contribution'', [ex_annotation])] ''out'' False
         \<lparr>dirs = {}, files = Map.empty, stdout = []\<rparr>), Some IndexError)"
    by (rule distribute_empty_record_index_error[THEN conjunct2, THEN mp, OF h])
  have 2: "dom (files (fst (distribute_annotations [(''Your contribution'', [ex_annotation])] ''out'' False
         \<lparr>dirs = {}, files = Map.empty, stdout = []\<rparr>))) = {''out/1281539.txt'', ''out/2024608.ann''}"
    by (auto simp: distribute_annotations_def ex_annotation_def)
  from 1 2 show ?thesis by simp
qed


end
